theory Spec2Isabelle
  imports Main "HOL-Library.Sublist"
begin

section \<open>Messages\<close>

text \<open>
  A tool call as it sits on an assistant message: \<^verbatim>\<open>{ name, args, id }\<close>. The arguments
  (\<^verbatim>\<open>Record<string, any>\<close>) are opaque to the code under study and stay a type variable.
\<close>

record 'a tool_call =
  call_name :: string
  call_args :: 'a
  call_id :: string

text \<open>
  \<^verbatim>\<open>BaseMessage\<close>: \<open>msg_type\<close> is what \<^verbatim>\<open>_getType()\<close> returns (\<^verbatim>\<open>"system"\<close>, \<^verbatim>\<open>"human"\<close>,
  \<^verbatim>\<open>"ai"\<close>, \<^verbatim>\<open>"tool"\<close>, ...); \<open>tool_calls\<close> is \<open>None\<close> where the property is undefined
  (every message that is not an assistant message).
\<close>

record 'a BaseMessage =
  msg_type :: string
  content :: string
  tool_calls :: "'a tool_call list option"
  msg_name :: "string option"
  tool_call_id :: "string option"

section \<open>JavaScript array slicing\<close>

text \<open>
  \<^verbatim>\<open>Array.prototype.slice(start)\<close> with one integer argument: a negative \<open>start\<close> counts
  from the end and is clamped at 0, a non-negative one is clamped at the length. The
  argument \<^verbatim>\<open>-0\<close> is the integer 0, so \<^verbatim>\<open>xs.slice(-0)\<close> is the whole array.
\<close>

definition slice :: "int \<Rightarrow> 'm list \<Rightarrow> 'm list" where
  "slice start xs =
     (let len = int (length xs);
          k = (if start < 0 then max (len + start) 0 else min start len)
      in drop (nat k) xs)"

section \<open>The in-memory conversation store\<close>

text \<open>
  \<^verbatim>\<open>class MemoryStore\<close> of \<^verbatim>\<open>memory/store.ts\<close>: the two private fields. \<open>maxMessages\<close> is a
  JavaScript number; the model takes integers.
\<close>

record 'a MemoryStore =
  messages :: "'a BaseMessage list"
  maxMessages :: int

definition is_system :: "'a BaseMessage \<Rightarrow> bool" where
  "is_system m = (msg_type m = ''system'')"

definition new_store :: "int \<Rightarrow> 'a MemoryStore" where
  "new_store maxM = \<lparr>messages = [], maxMessages = maxM\<rparr>"

text \<open>
  \<^verbatim>\<open>addMessages\<close>: push the batch, then, when the whole array (system messages included)
  is longer than \<open>maxMessages\<close>, rebuild it from the system messages followed by
  \<^verbatim>\<open>otherMessages.slice(-this.maxMessages)\<close>.
\<close>

definition addMessages :: "'a MemoryStore \<Rightarrow> 'a BaseMessage list \<Rightarrow> 'a MemoryStore" where
  "addMessages s ms =
     (let pushed = messages s @ ms in
      if int (length pushed) > maxMessages s then
        (let systemMessages = filter is_system pushed;
             otherMessages = filter (\<lambda>m. \<not> is_system m) pushed;
             recentMessages = slice (- maxMessages s) otherMessages
         in s\<lparr>messages := systemMessages @ recentMessages\<rparr>)
      else s\<lparr>messages := pushed\<rparr>)"

definition getMessages :: "'a MemoryStore \<Rightarrow> 'a BaseMessage list" where
  "getMessages s = messages s"

definition getRecentMessages :: "'a MemoryStore \<Rightarrow> int \<Rightarrow> 'a BaseMessage list" where
  "getRecentMessages s count = slice (- count) (messages s)"

definition clear :: "'a MemoryStore \<Rightarrow> 'a MemoryStore" where
  "clear s = s\<lparr>messages := []\<rparr>"

definition getMessageCount :: "'a MemoryStore \<Rightarrow> nat" where
  "getMessageCount s = length (messages s)"

text \<open>
  The calls a client can make on a store, and their effect on it. Only \<^verbatim>\<open>addMessages\<close> and
  \<^verbatim>\<open>clear\<close> assign to a field; the three readers leave the store as it is.
\<close>

datatype 'a store_op =
    AddMessages "'a BaseMessage list"
  | GetMessages
  | GetRecentMessages int
  | Clear
  | GetMessageCount

fun exec_op :: "'a MemoryStore \<Rightarrow> 'a store_op \<Rightarrow> 'a MemoryStore" where
  "exec_op s (AddMessages ms) = addMessages s ms"
| "exec_op s GetMessages = s"
| "exec_op s (GetRecentMessages n) = s"
| "exec_op s Clear = clear s"
| "exec_op s GetMessageCount = s"

definition is_clear :: "'a store_op \<Rightarrow> bool" where
  "is_clear opn = (case opn of Clear \<Rightarrow> True | _ \<Rightarrow> False)"

text \<open>
  Two observations on a store that the cap property is stated with: the number of stored
  messages that are not system messages, and \<^verbatim>\<open>size() - (1 if instruction present else 0)\<close>.
\<close>

definition non_instruction_count :: "'a MemoryStore \<Rightarrow> nat" where
  "non_instruction_count s = length (filter (\<lambda>m. \<not> is_system m) (messages s))"

definition cap_formula :: "'a MemoryStore \<Rightarrow> int" where
  "cap_formula s =
     int (getMessageCount s) - (if list_ex is_system (messages s) then 1 else 0)"

section \<open>The store as an object with an array field\<close>

text \<open>
  \<^verbatim>\<open>getMessages\<close> returns \<^verbatim>\<open>[...this.messages]\<close>, a new array, while \<^verbatim>\<open>push\<close> writes into the
  array the field points to. To speak about what a caller holds after the call, arrays live
  in a heap: a map from references to contents and the next unused reference. The object
  keeps a reference to its array.
\<close>

record 'a heap =
  arrays :: "nat \<Rightarrow> 'a BaseMessage list"
  next_ref :: nat

record store_obj =
  messages_ref :: nat
  obj_maxMessages :: int

definition alloc :: "'a BaseMessage list \<Rightarrow> 'a heap \<Rightarrow> nat \<times> 'a heap" where
  "alloc xs h =
     (next_ref h, h\<lparr>arrays := (arrays h)(next_ref h := xs), next_ref := Suc (next_ref h)\<rparr>)"

text \<open>
  \<^verbatim>\<open>this.messages.push(...messages)\<close> changes the current array in place; the eviction
  branch builds a new array and assigns it to the field. (The arrays that \<^verbatim>\<open>filter\<close> and
  \<^verbatim>\<open>slice\<close> create on the way are dropped at once and take no reference here.)
\<close>

definition ref_addMessages ::
  "store_obj \<Rightarrow> 'a heap \<Rightarrow> 'a BaseMessage list \<Rightarrow> store_obj \<times> 'a heap" where
  "ref_addMessages s h ms =
     (let r = messages_ref s;
          h1 = h\<lparr>arrays := (arrays h)(r := arrays h r @ ms)\<rparr>;
          pushed = arrays h1 r
      in if int (length pushed) > obj_maxMessages s then
           (let systemMessages = filter is_system pushed;
                otherMessages = filter (\<lambda>m. \<not> is_system m) pushed;
                recentMessages = slice (- obj_maxMessages s) otherMessages;
                (a, h2) = alloc (systemMessages @ recentMessages) h1
            in (s\<lparr>messages_ref := a\<rparr>, h2))
         else (s, h1))"

definition ref_getMessages :: "store_obj \<Rightarrow> 'a heap \<Rightarrow> nat \<times> 'a heap" where
  "ref_getMessages s h = alloc (arrays h (messages_ref s)) h"

definition ref_getRecentMessages :: "store_obj \<Rightarrow> 'a heap \<Rightarrow> int \<Rightarrow> nat \<times> 'a heap" where
  "ref_getRecentMessages s h count = alloc (slice (- count) (arrays h (messages_ref s))) h"

definition ref_clear :: "store_obj \<Rightarrow> 'a heap \<Rightarrow> store_obj \<times> 'a heap" where
  "ref_clear s h = (let (a, h1) = alloc [] h in (s\<lparr>messages_ref := a\<rparr>, h1))"

fun ref_exec :: "store_obj \<times> 'a heap \<Rightarrow> 'a store_op \<Rightarrow> store_obj \<times> 'a heap" where
  "ref_exec (s, h) (AddMessages ms) = ref_addMessages s h ms"
| "ref_exec (s, h) GetMessages = (s, snd (ref_getMessages s h))"
| "ref_exec (s, h) (GetRecentMessages n) = (s, snd (ref_getRecentMessages s h n))"
| "ref_exec (s, h) Clear = ref_clear s h"
| "ref_exec (s, h) GetMessageCount = (s, h)"

text \<open>The value-level store that an object and a heap stand for.\<close>

definition abs_store :: "store_obj \<times> 'a heap \<Rightarrow> 'a MemoryStore" where
  "abs_store sh =
     \<lparr>messages = arrays (snd sh) (messages_ref (fst sh)), maxMessages = obj_maxMessages (fst sh)\<rparr>"

definition new_obj :: "int \<Rightarrow> store_obj \<times> 'a heap" where
  "new_obj maxM =
     (\<lparr>messages_ref = 0, obj_maxMessages = maxM\<rparr>, \<lparr>arrays = (\<lambda>_. []), next_ref = 1\<rparr>)"

text \<open>
  A reference \<open>a\<close> handed out to a caller is separate from the store when it is allocated
  and is not the array the store's field points to.
\<close>

definition separate :: "nat \<Rightarrow> store_obj \<times> 'a heap \<Rightarrow> bool" where
  "separate a sh =
     (a < next_ref (snd sh) \<and> messages_ref (fst sh) < next_ref (snd sh) \<and> a \<noteq> messages_ref (fst sh))"

section \<open>Tools and the tools node\<close>

text \<open>
  What a \<^verbatim>\<open>catch (e: any)\<close> receives. The code reads \<^verbatim>\<open>e?.message ?? String(e)\<close>: the
  message when there is one, the value's string form otherwise.
\<close>

datatype thrown = Thrown (thrown_message: "string option") (thrown_string: string)

definition error_text :: "thrown \<Rightarrow> string" where
  "error_text e = (case thrown_message e of Some m \<Rightarrow> m | None \<Rightarrow> thrown_string e)"

text \<open>
  What \<^verbatim>\<open>await t.invoke(args)\<close> resolves to: a string, or some other value. For the latter
  the model carries what \<^verbatim>\<open>JSON.stringify(out)\<close> and the read of \<^verbatim>\<open>.length\<close> after it come
  to: a string, or a raised error (\<^verbatim>\<open>JSON.stringify\<close> raises, or returns \<^verbatim>\<open>undefined\<close> and
  \<^verbatim>\<open>.length\<close> raises).
\<close>

datatype tool_output = Text string | NonText "thrown + string"

fun resultStr :: "tool_output \<Rightarrow> thrown + string" where
  "resultStr (Text s) = Inr s"
| "resultStr (NonText r) = r"

text \<open>
  A tool of the catalog (\<^verbatim>\<open>StructuredToolInterface\<close>): its name and its \<^verbatim>\<open>invoke\<close>, which
  acts on the world (the browser) and returns or raises. Schema validation is part of
  \<^verbatim>\<open>invoke\<close>.
\<close>

record ('a, 'w) tool =
  tool_name :: string
  invoke :: "'a \<Rightarrow> 'w \<Rightarrow> (thrown + tool_output) \<times> 'w"

text \<open>The object literal pushed on \<^verbatim>\<open>results\<close>.\<close>

record tool_result =
  res_role :: string
  res_name :: string
  res_content :: string
  res_tool_call_id :: string

definition dq :: string where
  "dq = [CHR 0x22]"

text \<open>
  The body of \<^verbatim>\<open>for (const call of toolCalls)\<close>, lines 61 to 105, on the array \<open>results\<close>
  and the world: the \<^verbatim>\<open>continue\<close> branch for an unknown name, the \<^verbatim>\<open>try\<close> block, and the
  \<^verbatim>\<open>catch\<close> block, which also receives what the stringification raises. The calls of
  the logger are left out: they are taken to return and have no part in the result.
\<close>

definition toolsNode_body ::
  "('a, 'w) tool list \<Rightarrow> 'a tool_call \<Rightarrow> tool_result list \<Rightarrow> 'w \<Rightarrow> tool_result list \<times> 'w" where
  "toolsNode_body tools call results w =
     (let name = call_name call; args = call_args call in
      case find (\<lambda>x. tool_name x = name) tools of
        None \<Rightarrow>
          (results @ [\<lparr>res_role = ''tool'', res_name = name,
                       res_content = ''ERROR: unknown tool '' @ dq @ name @ dq,
                       res_tool_call_id = call_id call\<rparr>], w)
      | Some t \<Rightarrow>
          (case invoke t args w of
             (Inr out, w1) \<Rightarrow>
               (case resultStr out of
                  Inr str \<Rightarrow>
                    (results @ [\<lparr>res_role = ''tool'', res_name = name, res_content = str,
                                 res_tool_call_id = call_id call\<rparr>], w1)
                | Inl e \<Rightarrow>
                    (results @ [\<lparr>res_role = ''tool'', res_name = name,
                                 res_content = ''ERROR running tool '' @ dq @ name @ dq @ '': ''
                                               @ error_text e,
                                 res_tool_call_id = call_id call\<rparr>], w1))
           | (Inl e, w1) \<Rightarrow>
               (results @ [\<lparr>res_role = ''tool'', res_name = name,
                            res_content = ''ERROR running tool '' @ dq @ name @ dq @ '': ''
                                          @ error_text e,
                            res_tool_call_id = call_id call\<rparr>], w1)))"

fun toolsNode_loop ::
  "('a, 'w) tool list \<Rightarrow> 'a tool_call list \<Rightarrow> tool_result list \<Rightarrow> 'w \<Rightarrow> tool_result list \<times> 'w" where
  "toolsNode_loop tools [] results w = (results, w)"
| "toolsNode_loop tools (call # calls) results w =
     (case toolsNode_body tools call results w of
        (results1, w1) \<Rightarrow> toolsNode_loop tools calls results1 w1)"

text \<open>
  The state of the graph is its one channel, \<^verbatim>\<open>state.messages\<close>.
  \<^verbatim>\<open>state.messages[state.messages.length - 1]\<close> is \<^verbatim>\<open>undefined\<close> on an empty array, and
  \<^verbatim>\<open>last?.tool_calls ?? []\<close> is then the empty list, as it is for a message without the
  property.
\<close>

type_synonym 'a graph_state = "'a BaseMessage list"

definition last_tool_calls :: "'a graph_state \<Rightarrow> 'a tool_call list" where
  "last_tool_calls state =
     (if state = [] then []
      else (case tool_calls (last state) of None \<Rightarrow> [] | Some tcs \<Rightarrow> tcs))"

definition toolsNode :: "('a, 'w) tool list \<Rightarrow> 'a graph_state \<Rightarrow> 'w \<Rightarrow> tool_result list \<times> 'w" where
  "toolsNode tools state w =
     (let toolCalls = last_tool_calls state in
      if length toolCalls = 0 then ([], w)
      else toolsNode_loop tools toolCalls [] w)"

section \<open>The agent node, the router and the graph\<close>

text \<open>
  The model bound to the tools is a function from the messages it is sent and the world to
  a response or a raised error. \<^verbatim>\<open>agentNode\<close> sends the system message followed by the state
  and returns the response as the one new message; nothing catches what the model raises.
\<close>

type_synonym ('a, 'w) llm = "'a BaseMessage list \<Rightarrow> 'w \<Rightarrow> (thrown + 'a BaseMessage) \<times> 'w"

definition agentNode ::
  "('a, 'w) llm \<Rightarrow> 'a BaseMessage \<Rightarrow> 'a graph_state \<Rightarrow> 'w \<Rightarrow> (thrown + 'a BaseMessage list) \<times> 'w" where
  "agentNode llm systemMessage state w =
     (case llm (systemMessage # state) w of
        (Inl e, w1) \<Rightarrow> (Inl e, w1)
      | (Inr response, w1) \<Rightarrow> (Inr [response], w1))"

datatype route = ToTools | END

definition shouldContinue :: "'a graph_state \<Rightarrow> route" where
  "shouldContinue state =
     (let toolCalls = last_tool_calls state in
      if length toolCalls \<noteq> 0 then ToTools else END)"

text \<open>
  The messages channel appends what a node returns. The plain objects of the tools node
  become tool messages there.
\<close>

definition as_message :: "tool_result \<Rightarrow> 'a BaseMessage" where
  "as_message r =
     \<lparr>msg_type = res_role r, content = res_content r, tool_calls = None,
      msg_name = Some (res_name r), tool_call_id = Some (res_tool_call_id r)\<rparr>"

text \<open>
  The compiled graph: \<^verbatim>\<open>START\<close> to \<^verbatim>\<open>agent\<close>, from \<^verbatim>\<open>agent\<close> by \<^verbatim>\<open>shouldContinue\<close> to
  \<^verbatim>\<open>tools\<close> or to the end, from \<^verbatim>\<open>tools\<close> back to \<^verbatim>\<open>agent\<close>. The code sets no bound on the
  number of rounds, so a run that never ends has the value \<open>None\<close>.
\<close>

partial_function (option) run_graph ::
  "('a, 'w) llm \<Rightarrow> ('a, 'w) tool list \<Rightarrow> 'a BaseMessage \<Rightarrow> 'a graph_state \<Rightarrow> 'w
     \<Rightarrow> ((thrown + 'a graph_state) \<times> 'w) option" where
  "run_graph llm tools systemMessage state w =
     (case agentNode llm systemMessage state w of
        (Inl e, w1) \<Rightarrow> Some (Inl e, w1)
      | (Inr new_messages, w1) \<Rightarrow>
          (let state1 = state @ new_messages in
           case shouldContinue state1 of
             END \<Rightarrow> Some (Inr state1, w1)
           | ToTools \<Rightarrow>
               (case toolsNode tools state1 w1 of
                  (results, w2) \<Rightarrow>
                    run_graph llm tools systemMessage (state1 @ map as_message results) w2)))"

section \<open>Example data\<close>

text \<open>Messages without tool calls, and an assistant message with its tool calls.\<close>

definition mk_msg :: "string \<Rightarrow> string \<Rightarrow> string BaseMessage" where
  "mk_msg ty txt =
     \<lparr>msg_type = ty, content = txt, tool_calls = None, msg_name = None, tool_call_id = None\<rparr>"

definition ai_message :: "string \<Rightarrow> 'a tool_call list \<Rightarrow> 'a BaseMessage" where
  "ai_message txt tcs =
     \<lparr>msg_type = ''ai'', content = txt, tool_calls = Some tcs, msg_name = None, tool_call_id = None\<rparr>"

text \<open>
  A catalog over a world that records which tools ran: one tool that returns text and one
  that raises. Three requests, the second one to the raising tool.
\<close>

definition demo_tools :: "(string, string list) tool list" where
  "demo_tools =
     [\<lparr>tool_name = ''browser_goto'',
       invoke = (\<lambda>args w. (Inr (Text (''Navigated to '' @ args)), w @ [''browser_goto'']))\<rparr>,
      \<lparr>tool_name = ''browser_click'',
       invoke = (\<lambda>args w. (Inl (Thrown (Some ''Timeout 15000ms exceeded'') ''Error''),
                              w @ [''browser_click'']))\<rparr>]"

definition demo_calls :: "string tool_call list" where
  "demo_calls =
     [\<lparr>call_name = ''browser_goto'', call_args = ''a.example'', call_id = ''i1''\<rparr>,
      \<lparr>call_name = ''browser_click'', call_args = ''#go'', call_id = ''i2''\<rparr>,
      \<lparr>call_name = ''browser_goto'', call_args = ''b.example'', call_id = ''i3''\<rparr>]"


text \<open>A model that answers at once, with an empty list of tool calls.\<close>

definition answering_llm :: "(string, string list) llm" where
  "answering_llm msgs w = (Inr (ai_message ''It is sunny.'' []), w)"

text \<open>A store object with cap 2 whose array holds a human message followed by a system message.\<close>

definition demo_obj :: store_obj where
  "demo_obj = \<lparr>messages_ref = 0, obj_maxMessages = 2\<rparr>"

definition demo_heap :: "string heap" where
  "demo_heap =
     \<lparr>arrays = (\<lambda>_. [])(0 := [mk_msg ''human'' ''hi'', mk_msg ''system'' ''Rules'']),
      next_ref = 1\<rparr>"

section \<open>Properties of the store\<close>

lemma slice_neg_length: "0 < k \<Longrightarrow> int (length (slice (- k) xs)) \<le> k"
  by (simp add: slice_def Let_def)

lemma slice_subset: "set (slice k xs) \<subseteq> set xs"
  by (simp add: slice_def Let_def set_drop_subset)

lemma maxMessages_addMessages: "maxMessages (addMessages s ms) = maxMessages s"
  by (simp add: addMessages_def Let_def)

lemma filter_not_system_system: "filter (\<lambda>m. \<not> is_system m) (filter is_system xs) = []"
  by (induction xs) simp_all

lemma filter_slice_others:
  "filter (\<lambda>m. \<not> is_system m) (slice k (filter (\<lambda>m. \<not> is_system m) xs))
     = slice k (filter (\<lambda>m. \<not> is_system m) xs)"
  using slice_subset [of k "filter (\<lambda>m. \<not> is_system m) xs"]
  by (auto simp: filter_id_conv)

lemma addMessages_cap:
  assumes "1 \<le> maxMessages s"
  shows "int (non_instruction_count (addMessages s ms)) \<le> maxMessages s"
proof -
  define pushed where "pushed = messages s @ ms"
  show ?thesis
  proof (cases "int (length pushed) > maxMessages s")
    case True
    have "int (length (slice (- maxMessages s) (filter (\<lambda>m. \<not> is_system m) pushed))) \<le> maxMessages s"
      using assms by (intro slice_neg_length) simp
    then show ?thesis using True
      by (simp add: non_instruction_count_def addMessages_def Let_def pushed_def [symmetric]
            filter_not_system_system filter_slice_others)
  next
    case False
    then have eq: "messages (addMessages s ms) = pushed"
      by (simp add: addMessages_def Let_def pushed_def)
    have "length (filter (\<lambda>m. \<not> is_system m) pushed) \<le> length pushed"
      by (rule length_filter_le)
    with False show ?thesis
      unfolding non_instruction_count_def eq by linarith
  qed
qed

lemma foldl_maxMessages: "maxMessages (foldl addMessages s bs) = maxMessages s"
  by (induction bs arbitrary: s) (simp_all add: maxMessages_addMessages)

lemma cap_formula_single:
  assumes "length (filter is_system (messages s)) \<le> 1"
  shows "cap_formula s = int (non_instruction_count s)"
proof -
  have total: "length (messages s) = length (filter is_system (messages s)) + non_instruction_count s"
    by (simp add: non_instruction_count_def sum_length_filter_compl)
  show ?thesis
  proof (cases "filter is_system (messages s) = []")
    case True
    then have "\<not> list_ex is_system (messages s)"
      by (simp add: list_ex_iff filter_empty_conv)
    with True total show ?thesis
      by (simp add: cap_formula_def getMessageCount_def)
  next
    case False
    then have ex: "list_ex is_system (messages s)"
      by (simp add: list_ex_iff filter_empty_conv)
    from False have "length (filter is_system (messages s)) \<noteq> 0" by simp
    with assms have "length (filter is_system (messages s)) = 1" by linarith
    with ex total show ?thesis
      by (simp add: cap_formula_def getMessageCount_def)
  qed
qed

text \<open>
  Claim C1 (history cap), as amended: on a store whose \<open>maxMessages\<close> is at least 1, after
  each of a sequence of \<^verbatim>\<open>addMessages\<close> calls the number of stored messages that are not
  system messages is at most \<open>maxMessages\<close>; and where the store holds at most one system
  message, so is \<^verbatim>\<open>size() - (1 if instruction present else 0)\<close>. Every non-empty prefix of a
  sequence of calls is such a sequence, so the bound holds after each call.
\<close>

theorem history_cap:
  assumes "1 \<le> maxMessages s" and "batches \<noteq> []"
  shows "int (non_instruction_count (foldl addMessages s batches)) \<le> maxMessages s
    \<and> (length (filter is_system (messages (foldl addMessages s batches))) \<le> 1
        \<longrightarrow> cap_formula (foldl addMessages s batches) \<le> maxMessages s)"
proof -
  from assms(2) obtain bs b where bs: "batches = bs @ [b]"
    by (cases batches rule: rev_cases) auto
  let ?t = "foldl addMessages s bs"
  have "1 \<le> maxMessages ?t" using assms(1) by (simp add: foldl_maxMessages)
  then have "int (non_instruction_count (addMessages ?t b)) \<le> maxMessages ?t"
    by (rule addMessages_cap)
  then have main: "int (non_instruction_count (foldl addMessages s batches)) \<le> maxMessages s"
    by (simp add: bs foldl_maxMessages)
  then show ?thesis by (auto simp: cap_formula_single)
qed

theorem history_cap_witness:
  "int (non_instruction_count (foldl addMessages (new_store 3)
      [[mk_msg ''system'' ''S''], [mk_msg ''human'' ''a''], [mk_msg ''ai'' ''b''],
       [mk_msg ''human'' ''c''], [mk_msg ''ai'' ''d'']])) \<le> 3
   \<and> cap_formula (foldl addMessages (new_store 3)
      [[mk_msg ''system'' ''S''], [mk_msg ''human'' ''a''], [mk_msg ''ai'' ''b''],
       [mk_msg ''human'' ''c''], [mk_msg ''ai'' ''d'']]) \<le> 3"
proof -
  let ?s = "new_store 3 :: string MemoryStore"
  let ?bs = "[[mk_msg ''system'' ''S''], [mk_msg ''human'' ''a''], [mk_msg ''ai'' ''b''],
       [mk_msg ''human'' ''c''], [mk_msg ''ai'' ''d'']]"
  have h1: "1 \<le> maxMessages ?s" by (simp add: new_store_def)
  have h2: "?bs \<noteq> []" by simp
  have h3: "length (filter is_system (messages (foldl addMessages ?s ?bs))) \<le> 1"
    by (simp add: new_store_def addMessages_def Let_def slice_def is_system_def mk_msg_def)
  from history_cap [OF h1 h2] h3 show ?thesis by (simp add: new_store_def)
qed

text \<open>
  The cap as the claim writes it fails for a negative \<open>maxMessages\<close>, which no count can be
  below, and for a store holding two system messages, where \<^verbatim>\<open>size() - 1\<close> still counts one
  of them.
\<close>

theorem history_cap_counterexample:
  "\<not> cap_formula (addMessages (new_store (- 1)) ([] :: string BaseMessage list)) \<le> - 1
   \<and> \<not> cap_formula (addMessages (new_store 1)
          [mk_msg ''system'' ''S'', mk_msg ''system'' ''T'', mk_msg ''human'' ''a'']) \<le> 1"
  by (simp add: cap_formula_def getMessageCount_def new_store_def addMessages_def Let_def slice_def is_system_def mk_msg_def)

lemma addMessages_messages:
  "messages (addMessages s ms) =
     (if maxMessages s < int (length (messages s @ ms))
      then filter is_system (messages s @ ms)
             @ slice (- maxMessages s) (filter (\<lambda>m. \<not> is_system m) (messages s @ ms))
      else messages s @ ms)"
  unfolding addMessages_def Let_def
  by (cases "maxMessages s < int (length (messages s @ ms))") simp_all

lemma slice_others_no_system:
  "\<not> list_ex is_system (slice k (filter (\<lambda>m. \<not> is_system m) xs))"
  using slice_subset [of k "filter (\<lambda>m. \<not> is_system m) xs"]
  by (auto simp: list_ex_iff)

lemma filter_system_others: "filter is_system (filter (\<lambda>m. \<not> is_system m) xs) = []"
  by (induction xs) simp_all

lemma filter_system_slice_others:
  "filter is_system (slice k (filter (\<lambda>m. \<not> is_system m) xs)) = []"
proof -
  have "\<not> is_system m" if "m \<in> set (slice k (filter (\<lambda>m. \<not> is_system m) xs))" for m
    using that slice_subset [of k "filter (\<lambda>m. \<not> is_system m) xs"] by auto
  then show ?thesis
    unfolding filter_empty_conv by blast
qed

lemma addMessages_keeps_system:
  "filter is_system (messages (addMessages s ms)) = filter is_system (messages s) @ filter is_system ms"
proof (cases "maxMessages s < int (length (messages s @ ms))")
  case True
  then have "messages (addMessages s ms) = filter is_system (messages s @ ms)
      @ slice (- maxMessages s) (filter (\<lambda>m. \<not> is_system m) (messages s @ ms))"
    by (simp only: addMessages_messages if_True)
  then have "filter is_system (messages (addMessages s ms))
      = filter is_system (filter is_system (messages s @ ms))
        @ filter is_system (slice (- maxMessages s) (filter (\<lambda>m. \<not> is_system m) (messages s @ ms)))"
    by (simp only: filter_append)
  also have "\<dots> = filter is_system (messages s @ ms)"
    by (simp only: filter_system_slice_others append_Nil2 filter_filter conj_absorb)
  finally show ?thesis by simp
next
  case False
  then have "messages (addMessages s ms) = messages s @ ms"
    by (simp only: addMessages_messages if_False)
  then show ?thesis by simp
qed

lemma exec_op_keeps_system:
  assumes "\<not> is_clear opn" and "is_system m" and "m \<in> set (messages s)"
  shows "m \<in> set (messages (exec_op s opn))"
proof (cases opn)
  case (AddMessages ms)
  from assms(2,3) have "m \<in> set (filter is_system (messages s) @ filter is_system ms)" by simp
  then have "m \<in> set (filter is_system (messages (addMessages s ms)))"
    by (simp only: addMessages_keeps_system)
  then show ?thesis using AddMessages by simp
next
  case Clear
  with assms(1) show ?thesis by (simp add: is_clear_def)
qed (use assms(3) in simp_all)

lemma foldl_exec_keeps_system:
  assumes "\<not> list_ex is_clear ops" and "is_system m" and "m \<in> set (messages s)"
  shows "m \<in> set (messages (foldl exec_op s ops))"
  using assms
proof (induction ops arbitrary: s)
  case Nil
  then show ?case by simp
next
  case (Cons opn ops)
  from Cons.prems have "m \<in> set (messages (exec_op s opn))"
    by (intro exec_op_keeps_system) simp_all
  with Cons show ?case by simp
qed

text \<open>
  Claim C2 (instruction retention): a system message that is part of an appended batch is in
  the result of \<^verbatim>\<open>getMessages\<close> after every later sequence of calls that has no \<^verbatim>\<open>clear\<close> in
  it, whatever \<open>maxMessages\<close> is.
\<close>

theorem instruction_retention:
  assumes "is_system m" and "m \<in> set ms" and "\<not> list_ex is_clear ops"
  shows "m \<in> set (getMessages (foldl exec_op (exec_op s (AddMessages ms)) ops))"
proof -
  from assms(1,2) have "m \<in> set (filter is_system (messages s) @ filter is_system ms)" by simp
  then have "m \<in> set (filter is_system (messages (addMessages s ms)))"
    by (simp only: addMessages_keeps_system)
  then have "m \<in> set (messages (exec_op s (AddMessages ms)))" by simp
  with assms(1,3) show ?thesis
    unfolding getMessages_def by (intro foldl_exec_keeps_system)
qed

theorem instruction_retention_witness:
  "mk_msg ''system'' ''S'' \<in> set (getMessages (foldl exec_op
      (exec_op (new_store 2) (AddMessages [mk_msg ''system'' ''S'']))
      [AddMessages [mk_msg ''human'' ''a'', mk_msg ''ai'' ''b''], GetMessages,
       AddMessages [mk_msg ''human'' ''c''], GetRecentMessages 1, GetMessageCount]))"
proof -
  have h1: "is_system (mk_msg ''system'' ''S'')" by (simp add: is_system_def mk_msg_def)
  have h2: "mk_msg ''system'' ''S'' \<in> set [mk_msg ''system'' ''S'']" by simp
  have h3: "\<not> list_ex is_clear [AddMessages [mk_msg ''human'' ''a'', mk_msg ''ai'' ''b''], GetMessages,
       AddMessages [mk_msg ''human'' ''c''], GetRecentMessages 1, GetMessageCount]"
    by (simp add: is_clear_def)
  show ?thesis by (rule instruction_retention [OF h1 h2 h3])
qed

text \<open>
  Claim C7 (\<open>maxMessages \<le> 0\<close>): what the code does there. With \<open>maxMessages = 0\<close> the
  eviction pass runs and \<^verbatim>\<open>otherMessages.slice(-0)\<close> keeps every message; with
  \<open>maxMessages = -1\<close> it is \<^verbatim>\<open>slice(1)\<close>, which drops the oldest one only.
\<close>

theorem zero_cap_keeps_turns:
  "getMessages (addMessages (new_store 0) [mk_msg ''human'' ''hi'']) = [mk_msg ''human'' ''hi'']
   \<and> getMessages (addMessages (new_store (- 1)) [mk_msg ''human'' ''a'', mk_msg ''human'' ''b''])
       = [mk_msg ''human'' ''b'']"
  by (simp add: getMessages_def addMessages_def new_store_def Let_def slice_def is_system_def mk_msg_def)

text \<open>
  Claim C9 (\<^verbatim>\<open>getRecentMessages\<close>): what the code does for a count of 0. \<^verbatim>\<open>slice(-0)\<close> is
  \<^verbatim>\<open>slice(0)\<close>, the whole array, not the last 0 messages.
\<close>

theorem tail_zero_returns_all:
  "getRecentMessages \<lparr>messages = [mk_msg ''human'' ''a'', mk_msg ''ai'' ''b''], maxMessages = 50\<rparr> 0
     = [mk_msg ''human'' ''a'', mk_msg ''ai'' ''b'']"
  by (simp add: getRecentMessages_def slice_def)

text \<open>
  For a count of at least 1 the call does return the last \<open>count\<close> messages, and the whole
  sequence when the count exceeds its length.
\<close>

lemma getRecentMessages_positive:
  assumes "1 \<le> n"
  shows "getRecentMessages s n = drop (length (messages s) - nat n) (messages s)"
proof -
  have "nat (max (int (length (messages s)) - n) 0) = length (messages s) - nat n"
    using assms by (simp add: max_def nat_diff_distrib')
  with assms show ?thesis
    by (simp add: getRecentMessages_def slice_def Let_def)
qed

lemma getRecentMessages_beyond:
  assumes "int (length (messages s)) < n"
  shows "getRecentMessages s n = messages s"
  using assms by (simp add: getRecentMessages_def slice_def Let_def)

text \<open>
  The scenario of the specification: cap 3, a system message, then five turns one by one.
\<close>

lemma scenario_cap_three:
  "getMessages (foldl addMessages (new_store 3)
      [[mk_msg ''system'' ''S''], [mk_msg ''human'' ''a''], [mk_msg ''ai'' ''b''],
       [mk_msg ''human'' ''c''], [mk_msg ''ai'' ''d''], [mk_msg ''human'' ''e'']])
   = [mk_msg ''system'' ''S'', mk_msg ''human'' ''c'', mk_msg ''ai'' ''d'', mk_msg ''human'' ''e'']"
  by (simp add: getMessages_def new_store_def addMessages_def Let_def slice_def is_system_def mk_msg_def)

text \<open>
  Claim C10 (reordering by the eviction pass): when the array after the push is longer
  than \<open>maxMessages\<close> (system messages counted), the stored sequence becomes all system
  messages of the pushed array, in their order, followed by messages none of which is a
  system message; otherwise it is the old sequence followed by the new messages.
\<close>

theorem eviction_reorders:
  "(maxMessages s < int (length (messages s @ ms)) \<longrightarrow>
      (\<exists>rest. messages (addMessages s ms) = filter is_system (messages s @ ms) @ rest
             \<and> \<not> list_ex is_system rest))
   \<and> (\<not> maxMessages s < int (length (messages s @ ms)) \<longrightarrow>
      messages (addMessages s ms) = messages s @ ms)"
proof (intro conjI impI)
  assume "maxMessages s < int (length (messages s @ ms))"
  then have "messages (addMessages s ms) = filter is_system (messages s @ ms)
      @ slice (- maxMessages s) (filter (\<lambda>m. \<not> is_system m) (messages s @ ms))"
    by (simp only: addMessages_messages if_True)
  then show "\<exists>rest. messages (addMessages s ms) = filter is_system (messages s @ ms) @ rest
             \<and> \<not> list_ex is_system rest"
    using slice_others_no_system by blast
next
  assume "\<not> maxMessages s < int (length (messages s @ ms))"
  then show "messages (addMessages s ms) = messages s @ ms"
    by (simp only: addMessages_messages if_False)
qed

theorem eviction_reorders_witness:
  "(\<exists>rest. messages (addMessages
        \<lparr>messages = [mk_msg ''human'' ''a'', mk_msg ''system'' ''S''], maxMessages = 2\<rparr>
        [mk_msg ''ai'' ''b'']) = mk_msg ''system'' ''S'' # rest \<and> \<not> list_ex is_system rest)
   \<and> messages (addMessages \<lparr>messages = [mk_msg ''human'' ''a''], maxMessages = 2\<rparr>
        [mk_msg ''system'' ''S''])
     = [mk_msg ''human'' ''a'', mk_msg ''system'' ''S'']"
proof -
  let ?s1 = "\<lparr>messages = [mk_msg ''human'' ''a'', mk_msg ''system'' ''S''], maxMessages = 2\<rparr>"
  let ?s2 = "\<lparr>messages = [mk_msg ''human'' ''a''], maxMessages = 2\<rparr>"
  have h1: "maxMessages ?s1 < int (length (messages ?s1 @ [mk_msg ''ai'' ''b'']))" by simp
  have h2: "\<not> maxMessages ?s2 < int (length (messages ?s2 @ [mk_msg ''system'' ''S'']))" by simp
  have f: "filter is_system (messages ?s1 @ [mk_msg ''ai'' ''b'']) = [mk_msg ''system'' ''S'']"
    by (simp add: is_system_def mk_msg_def)
  from eviction_reorders [of ?s1 "[mk_msg ''ai'' ''b'']"] h1
  have a: "\<exists>rest. messages (addMessages ?s1 [mk_msg ''ai'' ''b''])
              = filter is_system (messages ?s1 @ [mk_msg ''ai'' ''b'']) @ rest
            \<and> \<not> list_ex is_system rest"
    by blast
  from eviction_reorders [of ?s2 "[mk_msg ''system'' ''S'']"] h2
  have b: "messages (addMessages ?s2 [mk_msg ''system'' ''S'']) = messages ?s2 @ [mk_msg ''system'' ''S'']"
    by blast
  from a have "\<exists>rest. messages (addMessages ?s1 [mk_msg ''ai'' ''b'']) = mk_msg ''system'' ''S'' # rest
            \<and> \<not> list_ex is_system rest"
    unfolding f by simp
  with b show ?thesis by simp
qed

section \<open>Properties of the store object\<close>

lemma new_obj_abs: "abs_store (new_obj maxM) = new_store maxM"
  by (simp add: abs_store_def new_obj_def new_store_def)

lemma alloc_simps:
  "fst (alloc xs h) = next_ref h"
  "arrays (snd (alloc xs h)) = (arrays h)(next_ref h := xs)"
  "next_ref (snd (alloc xs h)) = Suc (next_ref h)"
  by (simp_all add: alloc_def)

lemma ref_addMessages_abs:
  "abs_store (ref_addMessages s h ms) = addMessages (abs_store (s, h)) ms"
  by (simp add: ref_addMessages_def addMessages_def abs_store_def Let_def case_prod_beta alloc_simps)

lemma ref_addMessages_separate:
  assumes "separate a (s, h)"
  shows "separate a (ref_addMessages s h ms)
       \<and> arrays (snd (ref_addMessages s h ms)) a = arrays h a"
  using assms
  by (simp add: separate_def ref_addMessages_def Let_def case_prod_beta alloc_simps)

lemma ref_clear_separate:
  assumes "separate a (s, h)"
  shows "separate a (ref_clear s h) \<and> arrays (snd (ref_clear s h)) a = arrays h a"
  using assms
  by (simp add: separate_def ref_clear_def Let_def case_prod_beta alloc_simps)

lemma ref_exec_separate:
  assumes "separate a sh"
  shows "separate a (ref_exec sh opn) \<and> arrays (snd (ref_exec sh opn)) a = arrays (snd sh) a"
proof -
  obtain s h where sh: "sh = (s, h)" by (cases sh)
  show ?thesis
  proof (cases opn)
    case (AddMessages ms)
    with assms show ?thesis unfolding sh by (simp add: ref_addMessages_separate)
  next
    case GetMessages
    with assms show ?thesis unfolding sh
      by (simp add: separate_def ref_getMessages_def alloc_simps)
  next
    case (GetRecentMessages n)
    with assms show ?thesis unfolding sh
      by (simp add: separate_def ref_getRecentMessages_def alloc_simps)
  next
    case Clear
    with assms show ?thesis unfolding sh by (simp add: ref_clear_separate)
  next
    case GetMessageCount
    with assms show ?thesis unfolding sh by simp
  qed
qed

lemma foldl_ref_exec_separate:
  assumes "separate a sh"
  shows "arrays (snd (foldl ref_exec sh ops)) a = arrays (snd sh) a"
  using assms
proof (induction ops arbitrary: sh)
  case Nil
  show ?case by simp
next
  case (Cons opn ops)
  from ref_exec_separate [OF Cons.prems, of opn]
  have "separate a (ref_exec sh opn)" and "arrays (snd (ref_exec sh opn)) a = arrays (snd sh) a"
    by simp_all
  with Cons.IH [of "ref_exec sh opn"] show ?case by simp
qed

lemma ref_exec_abs:
  assumes "messages_ref (fst sh) < next_ref (snd sh)"
  shows "abs_store (ref_exec sh opn) = exec_op (abs_store sh) opn
       \<and> messages_ref (fst (ref_exec sh opn)) < next_ref (snd (ref_exec sh opn))"
proof -
  obtain s h where sh: "sh = (s, h)" by (cases sh)
  from assms have wf: "messages_ref s < next_ref h" by (simp add: sh)
  show ?thesis
  proof (cases opn)
    case (AddMessages ms)
    have "messages_ref (fst (ref_addMessages s h ms)) < next_ref (snd (ref_addMessages s h ms))"
      using wf by (simp add: ref_addMessages_def Let_def case_prod_beta alloc_simps)
    then show ?thesis unfolding sh AddMessages by (simp add: ref_addMessages_abs)
  next
    case GetMessages
    with wf show ?thesis unfolding sh
      by (simp add: abs_store_def ref_getMessages_def alloc_simps)
  next
    case (GetRecentMessages n)
    with wf show ?thesis unfolding sh
      by (simp add: abs_store_def ref_getRecentMessages_def alloc_simps)
  next
    case Clear
    then show ?thesis unfolding sh
      by (simp add: abs_store_def ref_clear_def clear_def alloc_simps case_prod_beta)
  next
    case GetMessageCount
    with wf show ?thesis unfolding sh by simp
  qed
qed

lemma foldl_ref_exec_abs:
  assumes "messages_ref (fst sh) < next_ref (snd sh)"
  shows "abs_store (foldl ref_exec sh ops) = foldl exec_op (abs_store sh) ops"
  using assms
proof (induction ops arbitrary: sh)
  case Nil
  show ?case by simp
next
  case (Cons opn ops)
  from ref_exec_abs [OF Cons.prems, of opn] Cons.IH [of "ref_exec sh opn"]
  show ?case by simp
qed

lemma slice_suffix: "suffix (slice k xs) xs"
  by (simp add: slice_def Let_def suffix_drop)

text \<open>
  Claim C8 (\<^verbatim>\<open>getMessages\<close>), as amended. In a store object whose array is allocated,
  \<^verbatim>\<open>getMessages\<close> returns a new array \<open>a\<close> holding the stored sequence in its stored order,
  the store is unchanged by the call, and no later sequence of calls on the store changes
  what \<open>a\<close> holds. The stored order has the system messages first only after an append
  that ran the eviction pass: a snapshot \<open>b\<close> taken after such an append is the system
  messages of the pushed array, in their order, followed by a suffix of its other
  messages; after an append that did not, it is the old sequence followed by the batch.
\<close>

theorem snapshot_copy:
  assumes "messages_ref s < next_ref h"
  shows "let (a, h1) = ref_getMessages s h;
             (s2, h2) = ref_addMessages s h ms;
             (b, h3) = ref_getMessages s2 h2;
             pushed = arrays h (messages_ref s) @ ms
         in arrays h1 a = getMessages (abs_store (s, h))
          \<and> a \<noteq> messages_ref s
          \<and> abs_store (s, h1) = abs_store (s, h)
          \<and> arrays (snd (foldl ref_exec (s, h1) ops)) a = arrays h1 a
          \<and> (obj_maxMessages s < int (length pushed) \<longrightarrow>
               (\<exists>kept. arrays h3 b = filter is_system pushed @ kept
                     \<and> suffix kept (filter (\<lambda>m. \<not> is_system m) pushed)))
          \<and> (\<not> obj_maxMessages s < int (length pushed) \<longrightarrow> arrays h3 b = pushed)"
proof -
  define a where "a = fst (ref_getMessages s h)"
  define h1 where "h1 = snd (ref_getMessages s h)"
  define s2 where "s2 = fst (ref_addMessages s h ms)"
  define h2 where "h2 = snd (ref_addMessages s h ms)"
  define b where "b = fst (ref_getMessages s2 h2)"
  define h3 where "h3 = snd (ref_getMessages s2 h2)"
  define pushed where "pushed = arrays h (messages_ref s) @ ms"
  have a: "a = next_ref h" and h1: "arrays h1 = (arrays h)(next_ref h := arrays h (messages_ref s))"
    and n1: "next_ref h1 = Suc (next_ref h)"
    by (simp_all add: a_def h1_def ref_getMessages_def alloc_simps)
  have copy: "arrays h1 a = getMessages (abs_store (s, h))"
    by (simp add: a h1 getMessages_def abs_store_def)
  have fresh: "a \<noteq> messages_ref s"
    using assms by (simp add: a)
  have same: "abs_store (s, h1) = abs_store (s, h)"
    using assms by (simp add: abs_store_def h1)
  have "separate a (s, h1)"
    using assms by (simp add: separate_def a n1)
  then have indep: "arrays (snd (foldl ref_exec (s, h1) ops)) a = arrays h1 a"
    using foldl_ref_exec_separate [of a "(s, h1)" ops] by simp
  have "arrays h3 b = arrays h2 (messages_ref s2)"
    by (simp add: b_def h3_def ref_getMessages_def alloc_simps)
  also have "\<dots> = messages (abs_store (ref_addMessages s h ms))"
    by (simp add: abs_store_def s2_def h2_def)
  also have "\<dots> = messages (addMessages (abs_store (s, h)) ms)"
    by (simp only: ref_addMessages_abs)
  finally have snap: "arrays h3 b = messages (addMessages (abs_store (s, h)) ms)" .
  have st: "messages (abs_store (s, h)) @ ms = pushed" "maxMessages (abs_store (s, h)) = obj_maxMessages s"
    by (simp_all add: abs_store_def pushed_def)
  have evict: "\<exists>kept. arrays h3 b = filter is_system pushed @ kept
                     \<and> suffix kept (filter (\<lambda>m. \<not> is_system m) pushed)"
    if "obj_maxMessages s < int (length pushed)"
  proof -
    from that have "arrays h3 b = filter is_system pushed
        @ slice (- obj_maxMessages s) (filter (\<lambda>m. \<not> is_system m) pushed)"
      unfolding snap addMessages_messages st by simp
    then show ?thesis using slice_suffix by blast
  qed
  have keep: "arrays h3 b = pushed" if "\<not> obj_maxMessages s < int (length pushed)"
    using that unfolding snap addMessages_messages st by simp
  show ?thesis
    unfolding Let_def case_prod_beta a_def [symmetric] h1_def [symmetric] s2_def [symmetric]
      h2_def [symmetric] b_def [symmetric] h3_def [symmetric] pushed_def [symmetric]
    using copy fresh same indep evict keep by blast
qed

theorem snapshot_copy_witness:
  "arrays (snd (foldl ref_exec (demo_obj, snd (ref_getMessages demo_obj demo_heap))
                  [AddMessages [mk_msg ''ai'' ''hello''], Clear]))
          (fst (ref_getMessages demo_obj demo_heap))
     = [mk_msg ''human'' ''hi'', mk_msg ''system'' ''Rules'']
   \<and> arrays (snd (ref_getMessages (fst (ref_addMessages demo_obj demo_heap []))
                                   (snd (ref_addMessages demo_obj demo_heap []))))
            (fst (ref_getMessages (fst (ref_addMessages demo_obj demo_heap []))
                                  (snd (ref_addMessages demo_obj demo_heap []))))
     = [mk_msg ''human'' ''hi'', mk_msg ''system'' ''Rules'']
   \<and> (\<exists>kept.
        arrays (snd (ref_getMessages (fst (ref_addMessages demo_obj demo_heap [mk_msg ''ai'' ''hello'']))
                                     (snd (ref_addMessages demo_obj demo_heap [mk_msg ''ai'' ''hello'']))))
               (fst (ref_getMessages (fst (ref_addMessages demo_obj demo_heap [mk_msg ''ai'' ''hello'']))
                                     (snd (ref_addMessages demo_obj demo_heap [mk_msg ''ai'' ''hello'']))))
          = mk_msg ''system'' ''Rules'' # kept
        \<and> suffix kept [mk_msg ''human'' ''hi'', mk_msg ''ai'' ''hello''])"
proof -
  let ?ops = "[AddMessages [mk_msg ''ai'' ''hello''], Clear]"
  have wf: "messages_ref demo_obj < next_ref demo_heap"
    by (simp add: demo_obj_def demo_heap_def)
  have stored: "arrays demo_heap (messages_ref demo_obj)
      = [mk_msg ''human'' ''hi'', mk_msg ''system'' ''Rules'']"
    and cap: "obj_maxMessages demo_obj = 2"
    by (simp_all add: demo_obj_def demo_heap_def)
  have sys: "filter is_system [mk_msg ''human'' ''hi'', mk_msg ''system'' ''Rules'', mk_msg ''ai'' ''hello'']
      = [mk_msg ''system'' ''Rules'']"
    and oth: "filter (\<lambda>m. \<not> is_system m) [mk_msg ''human'' ''hi'', mk_msg ''system'' ''Rules'', mk_msg ''ai'' ''hello'']
      = [mk_msg ''human'' ''hi'', mk_msg ''ai'' ''hello'']"
    by (simp_all add: is_system_def mk_msg_def)
  from snapshot_copy [OF wf, of "[]" ?ops]
  have one: "arrays (snd (foldl ref_exec (demo_obj, snd (ref_getMessages demo_obj demo_heap)) ?ops))
          (fst (ref_getMessages demo_obj demo_heap))
     = [mk_msg ''human'' ''hi'', mk_msg ''system'' ''Rules'']"
    and two: "arrays (snd (ref_getMessages (fst (ref_addMessages demo_obj demo_heap []))
                                   (snd (ref_addMessages demo_obj demo_heap []))))
            (fst (ref_getMessages (fst (ref_addMessages demo_obj demo_heap []))
                                  (snd (ref_addMessages demo_obj demo_heap []))))
     = [mk_msg ''human'' ''hi'', mk_msg ''system'' ''Rules'']"
    by (simp_all add: Let_def case_prod_beta stored cap getMessages_def abs_store_def)
  from snapshot_copy [OF wf, of "[mk_msg ''ai'' ''hello'']" ?ops]
  have three: "\<exists>kept.
        arrays (snd (ref_getMessages (fst (ref_addMessages demo_obj demo_heap [mk_msg ''ai'' ''hello'']))
                                     (snd (ref_addMessages demo_obj demo_heap [mk_msg ''ai'' ''hello'']))))
               (fst (ref_getMessages (fst (ref_addMessages demo_obj demo_heap [mk_msg ''ai'' ''hello'']))
                                     (snd (ref_addMessages demo_obj demo_heap [mk_msg ''ai'' ''hello'']))))
          = mk_msg ''system'' ''Rules'' # kept
        \<and> suffix kept [mk_msg ''human'' ''hi'', mk_msg ''ai'' ''hello'']"
    unfolding Let_def case_prod_beta stored cap append_Cons append_Nil sys oth
    by simp
  from one two three show ?thesis by blast
qed

text \<open>
  With cap 50, after a human message and a system message are appended in this order, the
  snapshot is not the system messages followed by the others.
\<close>

theorem snapshot_order_counterexample:
  "\<not> getMessages (addMessages (new_store 50) [mk_msg ''human'' ''hi'', mk_msg ''system'' ''Rules''])
       = filter is_system
           (getMessages (addMessages (new_store 50) [mk_msg ''human'' ''hi'', mk_msg ''system'' ''Rules'']))
         @ filter (Not \<circ> is_system)
           (getMessages (addMessages (new_store 50) [mk_msg ''human'' ''hi'', mk_msg ''system'' ''Rules'']))"
  by (simp add: getMessages_def addMessages_def new_store_def Let_def is_system_def mk_msg_def)

section \<open>Properties of the tools node\<close>

lemma body_unknown:
  assumes "find (\<lambda>x. tool_name x = call_name call) tools = None"
  shows "toolsNode_body tools call results w =
     (results @ [\<lparr>res_role = ''tool'', res_name = call_name call,
                  res_content = ''ERROR: unknown tool '' @ dq @ call_name call @ dq,
                  res_tool_call_id = call_id call\<rparr>], w)"
  using assms by (simp add: toolsNode_body_def Let_def)

lemma body_raised:
  assumes "find (\<lambda>x. tool_name x = call_name call) tools = Some t"
    and "invoke t (call_args call) w = (Inl e, w1)"
  shows "toolsNode_body tools call results w =
     (results @ [\<lparr>res_role = ''tool'', res_name = call_name call,
                  res_content = ''ERROR running tool '' @ dq @ call_name call @ dq @ '': '' @ error_text e,
                  res_tool_call_id = call_id call\<rparr>], w1)"
  using assms by (simp add: toolsNode_body_def Let_def)

lemma body_returned:
  assumes "find (\<lambda>x. tool_name x = call_name call) tools = Some t"
    and "invoke t (call_args call) w = (Inr out, w1)"
    and "resultStr out = Inr str"
  shows "toolsNode_body tools call results w =
     (results @ [\<lparr>res_role = ''tool'', res_name = call_name call, res_content = str,
                  res_tool_call_id = call_id call\<rparr>], w1)"
  using assms by (simp add: toolsNode_body_def Let_def)

lemma body_unprintable:
  assumes "find (\<lambda>x. tool_name x = call_name call) tools = Some t"
    and "invoke t (call_args call) w = (Inr out, w1)"
    and "resultStr out = Inl e"
  shows "toolsNode_body tools call results w =
     (results @ [\<lparr>res_role = ''tool'', res_name = call_name call,
                  res_content = ''ERROR running tool '' @ dq @ call_name call @ dq @ '': '' @ error_text e,
                  res_tool_call_id = call_id call\<rparr>], w1)"
  using assms by (simp add: toolsNode_body_def Let_def)

lemma toolsNode_body_push:
  "\<exists>r w1. (\<forall>results. toolsNode_body tools call results w = (results @ [r], w1))
     \<and> res_role r = ''tool'' \<and> res_name r = call_name call \<and> res_tool_call_id r = call_id call"
proof (cases "find (\<lambda>x. tool_name x = call_name call) tools")
  case None
  show ?thesis
    by (intro exI conjI allI, rule body_unknown [OF None]) simp_all
next
  case (Some t)
  obtain outcome w1 where inv: "invoke t (call_args call) w = (outcome, w1)"
    by (cases "invoke t (call_args call) w")
  show ?thesis
  proof (cases outcome)
    case (Inl e)
    show ?thesis
      by (intro exI conjI allI, rule body_raised [OF Some inv [unfolded Inl]]) simp_all
  next
    case (Inr out)
    show ?thesis
    proof (cases "resultStr out")
      case (Inl e)
      show ?thesis
        by (intro exI conjI allI, rule body_unprintable [OF Some inv [unfolded Inr] Inl]) simp_all
    next
      case str: (Inr str)
      show ?thesis
        by (intro exI conjI allI, rule body_returned [OF Some inv [unfolded Inr] str]) simp_all
    qed
  qed
qed

lemma toolsNode_loop_acc:
  "toolsNode_loop tools calls results w =
     (results @ fst (toolsNode_loop tools calls [] w), snd (toolsNode_loop tools calls [] w))"
proof (induction calls arbitrary: results w)
  case Nil
  show ?case by simp
next
  case (Cons call calls)
  obtain r w1 where r: "\<And>results. toolsNode_body tools call results w = (results @ [r], w1)"
    using toolsNode_body_push [of tools call w] by blast
  have "toolsNode_loop tools (call # calls) results w = toolsNode_loop tools calls (results @ [r]) w1"
    by (simp add: r)
  also have "\<dots> = ((results @ [r]) @ fst (toolsNode_loop tools calls [] w1), snd (toolsNode_loop tools calls [] w1))"
    by (rule Cons.IH)
  finally have lhs: "toolsNode_loop tools (call # calls) results w
     = (results @ r # fst (toolsNode_loop tools calls [] w1), snd (toolsNode_loop tools calls [] w1))"
    by simp
  have "toolsNode_loop tools (call # calls) [] w = toolsNode_loop tools calls [r] w1"
    by (simp add: r)
  also have "\<dots> = ([r] @ fst (toolsNode_loop tools calls [] w1), snd (toolsNode_loop tools calls [] w1))"
    by (rule Cons.IH)
  finally have rhs: "toolsNode_loop tools (call # calls) [] w
     = (r # fst (toolsNode_loop tools calls [] w1), snd (toolsNode_loop tools calls [] w1))"
    by simp
  show ?case unfolding lhs rhs by simp
qed

lemma toolsNode_loop_Cons:
  "toolsNode_loop tools (call # calls) [] w =
     (fst (toolsNode_body tools call [] w)
        @ fst (toolsNode_loop tools calls [] (snd (toolsNode_body tools call [] w))),
      snd (toolsNode_loop tools calls [] (snd (toolsNode_body tools call [] w))))"
proof -
  have "toolsNode_loop tools (call # calls) [] w
      = toolsNode_loop tools calls (fst (toolsNode_body tools call [] w)) (snd (toolsNode_body tools call [] w))"
    by (simp add: case_prod_beta)
  then show ?thesis
    by (simp only: toolsNode_loop_acc [of tools calls "fst (toolsNode_body tools call [] w)"])
qed


lemma toolsNode_loop_ids:
  "map res_tool_call_id (fst (toolsNode_loop tools calls [] w)) = map call_id calls"
proof (induction calls arbitrary: w)
  case Nil
  show ?case by simp
next
  case (Cons call calls)
  obtain r w1 where r: "\<And>results. toolsNode_body tools call results w = (results @ [r], w1)"
    and id: "res_tool_call_id r = call_id call"
    using toolsNode_body_push [of tools call w] by blast
  have "toolsNode_loop tools (call # calls) [] w
      = (r # fst (toolsNode_loop tools calls [] w1), snd (toolsNode_loop tools calls [] w1))"
    unfolding toolsNode_loop_Cons by (simp add: r)
  then show ?case
    by (simp add: id Cons.IH del: toolsNode_loop.simps)
qed

text \<open>
  Claim C3 (dispatch order): when the last message of the state carries the tool calls
  \<open>calls\<close>, the tools node returns as many results as there are calls, and their
  \<open>tool_call_id\<close>s are the ids of the calls in the same order.
\<close>

theorem dispatch_order:
  assumes "state \<noteq> []" and "tool_calls (last state) = Some calls"
  shows "map res_tool_call_id (fst (toolsNode tools state w)) = map call_id calls
       \<and> length (fst (toolsNode tools state w)) = length calls"
proof -
  have tc: "last_tool_calls state = calls"
    using assms by (simp add: last_tool_calls_def)
  have ids: "map res_tool_call_id (fst (toolsNode tools state w)) = map call_id calls"
  proof (cases "calls = []")
    case True
    then show ?thesis by (simp add: toolsNode_def tc)
  next
    case False
    then show ?thesis by (simp add: toolsNode_def tc toolsNode_loop_ids)
  qed
  have "length (fst (toolsNode tools state w)) = length (map res_tool_call_id (fst (toolsNode tools state w)))"
    by simp
  also have "\<dots> = length calls"
    unfolding ids by simp
  finally show ?thesis using ids by simp
qed

theorem dispatch_order_witness:
  "map res_tool_call_id (fst (toolsNode demo_tools [ai_message [] demo_calls] []))
     = [''i1'', ''i2'', ''i3'']"
proof -
  have h1: "[ai_message [] demo_calls] \<noteq> []" by simp
  have h2: "tool_calls (last [ai_message [] demo_calls]) = Some demo_calls"
    by (simp add: ai_message_def)
  from dispatch_order [OF h1 h2, of demo_tools "[]"] show ?thesis
    by (simp add: demo_calls_def)
qed










section \<open>Properties of the graph\<close>

text \<open>
  Claim C5 (termination on an empty request list): when the model answers with a response
  whose tool calls are absent or empty, the run of the graph ends there with the state
  extended by that response, whose content is therefore the content of the last message;
  the router chooses \<^verbatim>\<open>END\<close>, the world is the one the model left, and the tools node on
  that state would return no message and invoke nothing.
\<close>

theorem empty_request_list_ends:
  assumes "llm (systemMessage # state) w = (Inr response, w1)"
    and "(case tool_calls response of None \<Rightarrow> [] | Some tcs \<Rightarrow> tcs) = []"
  shows "run_graph llm tools systemMessage state w = Some (Inr (state @ [response]), w1)
       \<and> shouldContinue (state @ [response]) = END
       \<and> toolsNode tools (state @ [response]) w1 = ([], w1)
       \<and> content (last (state @ [response])) = content response"
proof -
  have agent: "agentNode llm systemMessage state w = (Inr [response], w1)"
    using assms(1) by (simp add: agentNode_def)
  have tc: "last_tool_calls (state @ [response]) = []"
    using assms(2) by (simp add: last_tool_calls_def)
  have route: "shouldContinue (state @ [response]) = END"
    by (simp add: shouldContinue_def tc)
  have "run_graph llm tools systemMessage state w = Some (Inr (state @ [response]), w1)"
    by (subst run_graph.simps) (simp add: agent route)
  moreover have "toolsNode tools (state @ [response]) w1 = ([], w1)"
    by (simp add: toolsNode_def tc)
  ultimately show ?thesis using route by simp
qed

theorem empty_request_list_ends_witness:
  "run_graph answering_llm demo_tools (mk_msg ''system'' ''Rules'') [mk_msg ''human'' ''Weather?''] []
     = Some (Inr [mk_msg ''human'' ''Weather?'', ai_message ''It is sunny.'' []], [])"
proof -
  have h1: "answering_llm (mk_msg ''system'' ''Rules'' # [mk_msg ''human'' ''Weather?'']) []
      = (Inr (ai_message ''It is sunny.'' []), [])"
    by (simp add: answering_llm_def)
  have h2: "(case tool_calls (ai_message ''It is sunny.'' [] :: string BaseMessage) of
               None \<Rightarrow> [] | Some tcs \<Rightarrow> tcs) = []"
    by (simp add: ai_message_def)
  from empty_request_list_ends
         [of answering_llm "mk_msg ''system'' ''Rules''" "[mk_msg ''human'' ''Weather?'']" "[]"
             "ai_message ''It is sunny.'' []" "[]" demo_tools]
       h1 h2
  show ?thesis
    by simp
qed

end
